theory Spec2Isabelle
  imports Main
begin

section \<open>The program\<close>

text \<open>
  The program keeps the board as a Python list of nine one-character strings:
  \<^verbatim>\<open>"_"\<close> for an empty cell, \<^verbatim>\<open>"X"\<close> for the AI and \<^verbatim>\<open>"O"\<close> for the human.
  A cell is modelled as \<open>mark option\<close>, with \<open>None\<close> for \<^verbatim>\<open>"_"\<close>; a player is a
  \<open>mark\<close>, \<open>MarkX\<close> for \<^verbatim>\<open>"X"\<close> and \<open>MarkO\<close> for \<^verbatim>\<open>"O"\<close>. Both source files
  (\<^verbatim>\<open>AI_plays_TicTacToe.py\<close> and \<^verbatim>\<open>AI_plays_TicTacToe_interactive.py\<close>) define \<^verbatim>\<open>magic\<close>,
  \<^verbatim>\<open>magic_\<close>, \<^verbatim>\<open>score_dict\<close>, \<^verbatim>\<open>avail_moves\<close>, \<^verbatim>\<open>check_player_win\<close> and \<^verbatim>\<open>minimax\<close> with the
  same text.

  Python raises \<^verbatim>\<open>IndexError\<close> when a list is read past its end and \<^verbatim>\<open>KeyError\<close>
  when a dictionary has no entry for a key. Both are results of the model.
\<close>

datatype mark = MarkX | MarkO

type_synonym cell = "mark option"

type_synonym board = "cell list"

datatype py_error = IndexError | KeyError

text \<open>\<^verbatim>\<open>magic = [8, 3, 4, 1, 5, 9, 6, 7, 2]\<close>\<close>

definition magic :: "int list" where
  "magic = [8, 3, 4, 1, 5, 9, 6, 7, 2]"

text \<open>
  \<^verbatim>\<open>magic_ = {8: 0, 3: 1, 4: 2, 1: 3, 5: 4, 9: 5, 6: 6, 7: 7, 2: 8}\<close>, the inverse table
  (named \<open>magic_inv\<close> here: a name cannot end with an underscore).
\<close>

definition magic_inv :: "int \<rightharpoonup> nat" where
  "magic_inv = [8 \<mapsto> 0, 3 \<mapsto> 1, 4 \<mapsto> 2, 1 \<mapsto> 3, 5 \<mapsto> 4, 9 \<mapsto> 5, 6 \<mapsto> 6, 7 \<mapsto> 7, 2 \<mapsto> 8]"

text \<open>\<^verbatim>\<open>score_dict = {"X": 1, "O": -1}\<close>\<close>

fun score_dict :: "mark \<Rightarrow> int" where
  "score_dict MarkX = 1"
| "score_dict MarkO = - 1"

text \<open>
  \<^verbatim>\<open>def avail_moves(board): return [i for i in range(9) if board[i] == "_"]\<close>

  The comprehension reads \<^verbatim>\<open>board[i]\<close> for every \<open>i\<close> of \<open>0..8\<close>, so it raises
  \<^verbatim>\<open>IndexError\<close> exactly when the list has fewer than nine cells.
\<close>

definition avail_moves :: "board \<Rightarrow> py_error + nat list" where
  "avail_moves board =
     (if length board < 9 then Inl IndexError
      else Inr [i \<leftarrow> [0..<9]. board ! i = None])"

text \<open>
  \<^verbatim>\<open>itertools.combinations(xs, 2)\<close>: the pairs \<open>(xs[i], xs[j])\<close> with \<open>i < j\<close>, in
  lexicographic order of the positions.
\<close>

fun combinations2 :: "'a list \<Rightarrow> ('a \<times> 'a) list" where
  "combinations2 [] = []"
| "combinations2 (x # xs) = map (Pair x) xs @ combinations2 xs"

text \<open>
  The \<^verbatim>\<open>for tuple_ in combinations(player_moves_, 2)\<close> loop of \<^verbatim>\<open>check_player_win\<close>:
  \<^verbatim>\<open>
    surp = 15 - (magic[tuple_[0]] + magic[tuple_[1]])
    if surp in avail_magic:
        return magic_[surp], score_dict[player]
  return None
  \<close>
  The pairs are made of cells of \<open>0..8\<close>, so \<^verbatim>\<open>magic[tuple_[0]]\<close> and \<^verbatim>\<open>magic[tuple_[1]]\<close>
  are in range; \<^verbatim>\<open>magic_[surp]\<close> raises \<^verbatim>\<open>KeyError\<close> when \<^verbatim>\<open>surp\<close> is not a key.
\<close>

fun check_pairs :: "int list \<Rightarrow> mark \<Rightarrow> (nat \<times> nat) list \<Rightarrow> py_error + (nat \<times> int) option" where
  "check_pairs avail_magic player [] = Inr None"
| "check_pairs avail_magic player (pair # rest) =
     (let surp = 15 - (magic ! fst pair + magic ! snd pair) in
      if surp \<in> set avail_magic then
        (case magic_inv surp of
           None \<Rightarrow> Inl KeyError
         | Some k \<Rightarrow> Inr (Some (k, score_dict player)))
      else check_pairs avail_magic player rest)"

text \<open>
  \<^verbatim>\<open>
  def check_player_win(board, player):
      player_moves_ = [i for i in range(9) if board[i] == player]
      avail_magic = [magic[i] for i in avail_moves(board)]
      for tuple_ in combinations(player_moves_, 2): ...
      return None
  \<close>
\<close>

definition check_player_win :: "board \<Rightarrow> mark \<Rightarrow> py_error + (nat \<times> int) option" where
  "check_player_win board player =
     (if length board < 9 then Inl IndexError
      else
        let player_moves = [i \<leftarrow> [0..<9]. board ! i = Some player] in
        case avail_moves board of
          Inl e \<Rightarrow> Inl e
        | Inr am \<Rightarrow>
            let avail_magic = map (\<lambda>i. magic ! i) am in
            check_pairs avail_magic player (combinations2 player_moves))"

text \<open>
  The loop of \<^verbatim>\<open>minimax\<close> stops at the first call that raises; \<open>collect\<close> gives the
  list of the results when none does, and the first error otherwise.
\<close>

fun collect :: "(py_error + 'a) list \<Rightarrow> py_error + 'a list" where
  "collect [] = Inr []"
| "collect (Inl e # rs) = Inl e"
| "collect (Inr v # rs) = (case collect rs of Inl e \<Rightarrow> Inl e | Inr vs \<Rightarrow> Inr (v # vs))"

text \<open>
  \<^verbatim>\<open>
  def minimax(board, player, opp):
      res = check_player_win(board, player)
      if res is not None:
          return res
      avail_moves_ = avail_moves(board)
      if not avail_moves_:
          return None, 0
      scores = []
      for i in avail_moves_:
          new_board = board.copy()
          new_board[i] = player
          _, score_ = minimax(new_board, opp, player)
          scores.append((i, score_))
      scores.sort(key=lambda x: x[1])
      return scores[-1] if player == "X" else scores[0]
  \<close>
  Python's \<^verbatim>\<open>list.sort\<close> is stable, as \<open>sort_key\<close> is. The result is the pair of the
  chosen cell (\<open>None\<close> for Python's \<^verbatim>\<open>None\<close>) and the score.
\<close>

function minimax :: "board \<Rightarrow> mark \<Rightarrow> mark \<Rightarrow> py_error + (nat option \<times> int)" where
  "minimax board player opp =
     (case check_player_win board player of
        Inl e \<Rightarrow> Inl e
      | Inr (Some res) \<Rightarrow> Inr (Some (fst res), snd res)
      | Inr None \<Rightarrow>
          (case avail_moves board of
             Inl e \<Rightarrow> Inl e
           | Inr avail \<Rightarrow>
               if avail = [] then Inr (None, 0)
               else
                 (case collect (map (\<lambda>i.
                          case minimax (board[i := Some player]) opp player of
                            Inl e \<Rightarrow> Inl e
                          | Inr r \<Rightarrow> Inr (i, snd r)) avail) of
                    Inl e \<Rightarrow> Inl e
                  | Inr scores \<Rightarrow>
                      let sorted_scores = sort_key snd scores;
                          best = (if player = MarkX then last sorted_scores else hd sorted_scores)
                      in Inr (Some (fst best), snd best))))"
  by pat_completeness auto

text \<open>
  Each recursive call of \<^verbatim>\<open>minimax\<close> is on a board with one more of the nine cells
  filled, so the recursion ends.
\<close>

lemma avail_moves_update_less:
  assumes "avail_moves board = Inr am" and "i \<in> set am"
  shows "length [j \<leftarrow> [0..<9]. (board[i := Some p]) ! j = None]
       < length [j \<leftarrow> [0..<9]. board ! j = None]"
proof -
  from assms have len: "9 \<le> length board" and i9: "i < 9" and emp: "board ! i = None"
    by (auto simp: avail_moves_def split: if_splits)
  let ?A = "{j. (board[i := Some p]) ! j = None} \<inter> set [0..<9]"
  let ?B = "{j. board ! j = None} \<inter> set [0..<9]"
  have "\<And>j. (board[i := Some p]) ! j = None \<Longrightarrow> board ! j = None"
    using len i9 by (case_tac "j = i") simp_all
  then have 1: "?A \<subseteq> ?B" by blast
  have 2: "i \<in> ?B" using i9 emp by simp
  have 3: "i \<notin> ?A" using len i9 by simp
  from 1 2 3 have sub: "?A \<subset> ?B" by blast
  have "card ?A < card ?B"
    by (rule psubset_card_mono[OF _ sub]) simp
  then show ?thesis
    by (simp only: distinct_length_filter[OF distinct_upt])
qed

termination minimax
  by (relation "measure (\<lambda>(board, player, opp). length [j \<leftarrow> [0..<9]. board ! j = None])")
     (auto intro: avail_moves_update_less)

section \<open>Notions of the specification and further models of the program\<close>

text \<open>
  The eight winning lines of the 3 by 3 board, cells numbered row by row
  (cell \<open>3 * row + col\<close>): three rows, three columns, two diagonals. The program never
  lists them: it recognises a line by the sum of its magic values.
\<close>

definition win_lines :: "(nat \<times> nat \<times> nat) list" where
  "win_lines = map (\<lambda>r. (3 * r, 3 * r + 1, 3 * r + 2)) [0..<3]
             @ map (\<lambda>c. (c, c + 3, c + 6)) [0..<3]
             @ [(0, 4, 8), (2, 4, 6)]"

text \<open>
  A player has two marks on a common winning line whose third cell is empty.
\<close>

definition two_in_line :: "board \<Rightarrow> mark \<Rightarrow> bool" where
  "two_in_line board player \<longleftrightarrow>
     (\<exists>(u, v, w) \<in> set win_lines.
        (board ! u = Some player \<and> board ! v = Some player \<and> board ! w = None)
      \<or> (board ! u = Some player \<and> board ! w = Some player \<and> board ! v = None)
      \<or> (board ! v = Some player \<and> board ! w = Some player \<and> board ! u = None))"

text \<open>
  The number of empty cells, \<^verbatim>\<open>len(avail_moves(board))\<close>.
\<close>

definition empty_count :: "board \<Rightarrow> nat" where
  "empty_count board = (case avail_moves board of Inl e \<Rightarrow> 0 | Inr avail \<Rightarrow> length avail)"

text \<open>
  \<open>minimax\<close> above is a total function. To bound the depth of its recursion,
  \<open>minimax_fuel\<close> is the same function with a budget of nested calls: it gives \<open>None\<close>
  when a call would go deeper than the budget, and \<open>collect_fuel\<close> lets the loop stop
  there.
\<close>

fun collect_fuel :: "(py_error + 'a) option list \<Rightarrow> (py_error + 'a list) option" where
  "collect_fuel [] = Some (Inr [])"
| "collect_fuel (None # rs) = None"
| "collect_fuel (Some (Inl e) # rs) = Some (Inl e)"
| "collect_fuel (Some (Inr v) # rs) =
     (case collect_fuel rs of
        None \<Rightarrow> None
      | Some (Inl e) \<Rightarrow> Some (Inl e)
      | Some (Inr vs) \<Rightarrow> Some (Inr (v # vs)))"

fun minimax_fuel :: "nat \<Rightarrow> board \<Rightarrow> mark \<Rightarrow> mark \<Rightarrow> (py_error + (nat option \<times> int)) option" where
  "minimax_fuel 0 board player opp = None"
| "minimax_fuel (Suc depth) board player opp =
     (case check_player_win board player of
        Inl e \<Rightarrow> Some (Inl e)
      | Inr (Some res) \<Rightarrow> Some (Inr (Some (fst res), snd res))
      | Inr None \<Rightarrow>
          (case avail_moves board of
             Inl e \<Rightarrow> Some (Inl e)
           | Inr avail \<Rightarrow>
               if avail = [] then Some (Inr (None, 0))
               else
                 (case collect_fuel (map (\<lambda>i.
                          case minimax_fuel depth (board[i := Some player]) opp player of
                            None \<Rightarrow> None
                          | Some (Inl e) \<Rightarrow> Some (Inl e)
                          | Some (Inr r) \<Rightarrow> Some (Inr (i, snd r))) avail) of
                    None \<Rightarrow> None
                  | Some (Inl e) \<Rightarrow> Some (Inl e)
                  | Some (Inr scores) \<Rightarrow>
                      let sorted_scores = sort_key snd scores;
                          best = (if player = MarkX then last sorted_scores else hd sorted_scores)
                      in Some (Inr (Some (fst best), snd best)))))"

text \<open>
  The same function once more, with the list objects in a heap. A Python variable holds
  a reference to a list object; here a heap is the list of the objects allocated so far
  and a reference is a position in it. \<^verbatim>\<open>board.copy()\<close> allocates a new object with the
  cells of \<^verbatim>\<open>board\<close>; \<^verbatim>\<open>new_board[i] = player\<close> updates the object that \<^verbatim>\<open>new_board\<close>
  refers to, in place, and raises \<^verbatim>\<open>IndexError\<close> when that object has no cell \<open>i\<close>.
  \<^verbatim>\<open>check_player_win\<close> and \<^verbatim>\<open>avail_moves\<close> only read the list they are given.
  \<open>minimax_heap\<close> returns the result together with the heap after the call;
  \<open>scores_heap\<close> is the \<^verbatim>\<open>for i in avail_moves_\<close> loop, \<open>scores\<close> being the list built so
  far. The budget of nested calls is that of \<open>minimax_fuel\<close>.
\<close>

type_synonym ref = nat

type_synonym heap = "board list"

definition copy_list :: "heap \<Rightarrow> ref \<Rightarrow> ref \<times> heap" where
  "copy_list h r = (length h, h @ [h ! r])"

definition setitem :: "heap \<Rightarrow> ref \<Rightarrow> nat \<Rightarrow> cell \<Rightarrow> py_error + heap" where
  "setitem h r i v =
     (if i < length (h ! r) then Inr (h[r := (h ! r)[i := v]]) else Inl IndexError)"

fun minimax_heap ::
    "nat \<Rightarrow> heap \<Rightarrow> ref \<Rightarrow> mark \<Rightarrow> mark \<Rightarrow> ((py_error + (nat option \<times> int)) \<times> heap) option"
  and scores_heap ::
    "nat \<Rightarrow> heap \<Rightarrow> ref \<Rightarrow> mark \<Rightarrow> mark \<Rightarrow> nat list \<Rightarrow> (nat \<times> int) list
       \<Rightarrow> ((py_error + (nat \<times> int) list) \<times> heap) option"
where
  "minimax_heap 0 h board player opp = None"
| "minimax_heap (Suc depth) h board player opp =
     (case check_player_win (h ! board) player of
        Inl e \<Rightarrow> Some (Inl e, h)
      | Inr (Some res) \<Rightarrow> Some (Inr (Some (fst res), snd res), h)
      | Inr None \<Rightarrow>
          (case avail_moves (h ! board) of
             Inl e \<Rightarrow> Some (Inl e, h)
           | Inr avail \<Rightarrow>
               if avail = [] then Some (Inr (None, 0), h)
               else
                 (case scores_heap depth h board player opp avail [] of
                    None \<Rightarrow> None
                  | Some (Inl e, h') \<Rightarrow> Some (Inl e, h')
                  | Some (Inr scores, h') \<Rightarrow>
                      let sorted_scores = sort_key snd scores;
                          best = (if player = MarkX then last sorted_scores else hd sorted_scores)
                      in Some (Inr (Some (fst best), snd best), h'))))"
| "scores_heap depth h board player opp [] scores = Some (Inr scores, h)"
| "scores_heap depth h board player opp (i # rest) scores =
     (case copy_list h board of
        (new_board, h1) \<Rightarrow>
          (case setitem h1 new_board i (Some player) of
             Inl e \<Rightarrow> Some (Inl e, h1)
           | Inr h2 \<Rightarrow>
               (case minimax_heap depth h2 new_board opp player of
                  None \<Rightarrow> None
                | Some (Inl e, h3) \<Rightarrow> Some (Inl e, h3)
                | Some (Inr r, h3) \<Rightarrow>
                    scores_heap depth h3 board player opp rest (scores @ [(i, snd r)]))))"





text \<open>
  The score of a position can be bounded without visiting the whole game tree: where
  \<^verbatim>\<open>"X"\<close> moves, the score is at least the score after any one move, and at most a
  bound that holds after every move; dually where \<^verbatim>\<open>"O"\<close> moves.
  \<open>certify True\<close> checks that the score is at least 0, \<open>certify False\<close> that it is at
  most 0; both follow the recursion of \<^verbatim>\<open>minimax\<close>.
\<close>

function certify :: "bool \<Rightarrow> board \<Rightarrow> mark \<Rightarrow> mark \<Rightarrow> bool" where
  "certify lower board player opp =
     (case check_player_win board player of
        Inl e \<Rightarrow> False
      | Inr (Some res) \<Rightarrow> (if lower then 0 \<le> snd res else snd res \<le> 0)
      | Inr None \<Rightarrow>
          (case avail_moves board of
             Inl e \<Rightarrow> False
           | Inr avail \<Rightarrow>
               if avail = [] then True
               else if (player = MarkX) = lower
                 then list_ex (\<lambda>i. certify lower (board[i := Some player]) opp player) avail
                 else list_all (\<lambda>i. certify lower (board[i := Some player]) opp player) avail))"
  by pat_completeness auto

termination
  by (relation "measure (\<lambda>(lower, board, player, opp). length [j \<leftarrow> [0..<9]. board ! j = None])")
     (auto intro: avail_moves_update_less)

declare certify.simps [simp del]

section \<open>The magic square\<close>

lemma win_lines_eq:
  "win_lines = [(0,1,2),(3,4,5),(6,7,8),(0,3,6),(1,4,7),(2,5,8),(0,4,8),(2,4,6)]"
  by code_simp

lemma all_less9: "(\<forall>i<9. P i) \<longleftrightarrow> list_all P [0..<9]"
  by (auto simp: list_all_iff)

lemma magic_sum_line_all:
  "\<forall>a<9. \<forall>b<9. \<forall>c<9. a < b \<and> b < c \<and> magic ! a + magic ! b + magic ! c = 15
       \<longrightarrow> (a, b, c) \<in> set win_lines"
  unfolding all_less9 by code_simp

lemma line_sum_magic_all:
  "list_all (\<lambda>(a, b, c). magic ! a + magic ! b + magic ! c = 15 \<and> a < b \<and> b < c \<and> c < 9) win_lines"
  by code_simp

lemma magic_inv_magic_all: "\<forall>i<9. magic_inv (magic ! i) = Some i"
  unfolding all_less9 magic_def magic_inv_def by code_simp

text \<open>
  Claim C9. The encoding round-trips: for every cell \<open>i\<close> of \<open>0..8\<close>, looking the magic
  value of \<open>i\<close> up in the inverse table \<^verbatim>\<open>magic_\<close> gives \<open>i\<close> back (and the key is
  present, so the lookup raises no \<^verbatim>\<open>KeyError\<close>).
\<close>

theorem magic_roundtrip: "\<forall>i<9. magic_inv (magic ! i) = Some i"
  by (rule magic_inv_magic_all)

theorem magic_roundtrip_witness: "(5::nat) < 9 \<and> magic ! 5 = 9 \<and> magic_inv (magic ! 5) = Some 5"
  using magic_roundtrip [rule_format, of 5] by (simp add: magic_def)

text \<open>
  Claim C6. Each of the eight winning lines has magic values summing to 15, and no other
  triple of distinct cells does: three cells \<open>a < b < c\<close> whose magic values sum to 15
  are a winning line. The nine magic values are distinct, so triples of distinct magic
  values are triples of distinct cells.
\<close>

theorem magic_lines_sum_15:
  "(\<forall>(a, b, c) \<in> set win_lines. magic ! a + magic ! b + magic ! c = 15)
   \<and> (\<forall>a<9. \<forall>b<9. \<forall>c<9. a < b \<and> b < c \<and> magic ! a + magic ! b + magic ! c = 15
          \<longrightarrow> (a, b, c) \<in> set win_lines)
   \<and> length win_lines = 8 \<and> distinct win_lines \<and> distinct magic"
proof -
  have "\<forall>(a, b, c) \<in> set win_lines. magic ! a + magic ! b + magic ! c = 15"
    using line_sum_magic_all by (auto simp: list_all_iff)
  moreover have "length win_lines = 8 \<and> distinct win_lines"
    by (simp add: win_lines_eq)
  moreover have "distinct magic"
    by (simp add: magic_def)
  ultimately show ?thesis
    using magic_sum_line_all by blast
qed

theorem magic_lines_sum_15_witness:
  "(2, 4, 6) \<in> set win_lines \<and> magic ! 2 + magic ! 4 + magic ! 6 = 15
   \<and> (0::nat) < 9 \<and> (4::nat) < 9 \<and> (8::nat) < 9 \<and> (0::nat) < 4 \<and> (4::nat) < 8
   \<and> magic ! 0 + magic ! 4 + magic ! 8 = 15 \<and> (0, 4, 8) \<in> set win_lines"
proof -
  have m: "magic ! 0 + magic ! 4 + magic ! 8 = 15" "magic ! 2 + magic ! 4 + magic ! 6 = 15"
    by (simp_all add: magic_def)
  have "(0, 4, 8) \<in> set win_lines"
    using magic_lines_sum_15 m(1) by simp
  moreover have "(2, 4, 6) \<in> set win_lines"
    by (simp add: win_lines_eq)
  ultimately show ?thesis using m by simp
qed

section \<open>The win oracle\<close>

lemma set_combinations2:
  fixes xs :: "nat list"
  shows "sorted_wrt (<) xs \<Longrightarrow> set (combinations2 xs) = {(x, y). x \<in> set xs \<and> y \<in> set xs \<and> x < y}"
  by (induction xs) fastforce+

lemma combinations2_short: "length xs < 2 \<Longrightarrow> combinations2 xs = []"
  by (cases xs rule: combinations2.cases) (auto simp: less_Suc_eq)

lemma check_pairs_Some:
  "check_pairs avm p ps = Inr (Some r) \<Longrightarrow>
     \<exists>t \<in> set ps. 15 - (magic ! fst t + magic ! snd t) \<in> set avm
        \<and> magic_inv (15 - (magic ! fst t + magic ! snd t)) = Some (fst r) \<and> snd r = score_dict p"
  by (induction ps) (auto simp: Let_def split: if_splits option.splits)

lemma check_pairs_None:
  "check_pairs avm p ps = Inr None \<longleftrightarrow> (\<forall>t \<in> set ps. 15 - (magic ! fst t + magic ! snd t) \<notin> set avm)"
  by (induction ps) (auto simp: Let_def split: if_splits option.splits)

lemma check_pairs_no_error:
  "\<forall>v \<in> set avm. magic_inv v \<noteq> None \<Longrightarrow> check_pairs avm p ps \<noteq> Inl e"
  by (induction ps) (auto simp: Let_def split: if_splits option.splits)

lemma check_player_win_unfold:
  "9 \<le> length board \<Longrightarrow>
   check_player_win board player =
     check_pairs (map ((!) magic) [i \<leftarrow> [0..<9]. board ! i = None]) player
       (combinations2 [i \<leftarrow> [0..<9]. board ! i = Some player])"
  by (simp add: check_player_win_def avail_moves_def)

lemma avail_magic_iff:
  "v \<in> set (map ((!) magic) [i \<leftarrow> [0..<9]. board ! i = None])
     \<longleftrightarrow> (\<exists>c<9. board ! c = None \<and> v = magic ! c)"
  by auto

lemma player_pairs_iff:
  "t \<in> set (combinations2 [i \<leftarrow> [0..<9]. board ! i = Some player])
     \<longleftrightarrow> (fst t < snd t \<and> snd t < 9 \<and> board ! fst t = Some player \<and> board ! snd t = Some player)"
proof -
  have "sorted_wrt (<) [i \<leftarrow> [0..<9]. board ! i = Some player]"
    by (intro sorted_wrt_filter) simp
  from set_combinations2[OF this] show ?thesis
    by (cases t) auto
qed

lemma check_player_win_no_error:
  assumes "9 \<le> length board"
  shows "check_player_win board player \<noteq> Inl e"
proof -
  have "\<forall>v \<in> set (map ((!) magic) [i \<leftarrow> [0..<9]. board ! i = None]). magic_inv v \<noteq> None"
    using magic_inv_magic_all by (auto simp del: set_map simp: avail_magic_iff)
  from check_pairs_no_error[OF this] show ?thesis
    by (simp add: check_player_win_unfold[OF assms])
qed

lemma check_player_win_Some:
  assumes len: "9 \<le> length board" and res: "check_player_win board player = Inr (Some (k, s))"
  shows "\<exists>x y. x < y \<and> y < 9 \<and> board ! x = Some player \<and> board ! y = Some player
           \<and> k < 9 \<and> board ! k = None \<and> magic ! x + magic ! y + magic ! k = 15
           \<and> s = score_dict player"
proof -
  from res obtain t where t: "t \<in> set (combinations2 [i \<leftarrow> [0..<9]. board ! i = Some player])"
    and av: "15 - (magic ! fst t + magic ! snd t) \<in> set (map ((!) magic) [i \<leftarrow> [0..<9]. board ! i = None])"
    and inv: "magic_inv (15 - (magic ! fst t + magic ! snd t)) = Some k"
    and s: "s = score_dict player"
    unfolding check_player_win_unfold[OF len] by (fastforce dest!: check_pairs_Some)
  from av obtain c where c: "c < 9" "board ! c = None" "15 - (magic ! fst t + magic ! snd t) = magic ! c"
    unfolding avail_magic_iff by blast
  with inv magic_inv_magic_all have "k = c" by auto
  with c t s show ?thesis
    unfolding player_pairs_iff by (intro exI[of _ "fst t"] exI[of _ "snd t"]) auto
qed

lemma surp_eq: "(15 - (a + b) = (c::int)) \<longleftrightarrow> (a + b + c = 15)"
  by auto

lemma check_player_win_None:
  assumes len: "9 \<le> length board"
  shows "check_player_win board player = Inr None \<longleftrightarrow>
     \<not> (\<exists>x y c. x < y \<and> y < 9 \<and> board ! x = Some player \<and> board ! y = Some player
           \<and> c < 9 \<and> board ! c = None \<and> magic ! x + magic ! y + magic ! c = 15)"
proof -
  have "check_player_win board player = Inr None \<longleftrightarrow>
        (\<forall>t. t \<in> set (combinations2 [i \<leftarrow> [0..<9]. board ! i = Some player]) \<longrightarrow>
           15 - (magic ! fst t + magic ! snd t)
             \<notin> set (map ((!) magic) [i \<leftarrow> [0..<9]. board ! i = None]))"
    unfolding check_player_win_unfold[OF len] check_pairs_None by blast
  also have "\<dots> \<longleftrightarrow>
        (\<forall>t. fst t < snd t \<and> snd t < 9 \<and> board ! fst t = Some player \<and> board ! snd t = Some player
           \<longrightarrow> \<not> (\<exists>c<9. board ! c = None \<and> 15 - (magic ! fst t + magic ! snd t) = magic ! c))"
    unfolding player_pairs_iff avail_magic_iff ..
  also have "\<dots> \<longleftrightarrow>
        (\<forall>x y. x < y \<and> y < 9 \<and> board ! x = Some player \<and> board ! y = Some player
           \<longrightarrow> \<not> (\<exists>c<9. board ! c = None \<and> magic ! x + magic ! y + magic ! c = 15))"
    by (simp add: surp_eq)
  also have "\<dots> \<longleftrightarrow>
     \<not> (\<exists>x y c. x < y \<and> y < 9 \<and> board ! x = Some player \<and> board ! y = Some player
           \<and> c < 9 \<and> board ! c = None \<and> magic ! x + magic ! y + magic ! c = 15)"
    by blast
  finally show ?thesis .
qed

lemma win_lines_facts:
  "(u, v, w) \<in> set win_lines \<Longrightarrow>
     magic ! u + magic ! v + magic ! w = 15 \<and> u < v \<and> v < w \<and> w < 9"
  using line_sum_magic_all by (auto simp: list_all_iff)

lemma two_in_line_iff:
  "two_in_line board player \<longleftrightarrow>
     (\<exists>x y c. x < y \<and> y < 9 \<and> board ! x = Some player \<and> board ! y = Some player
           \<and> c < 9 \<and> board ! c = None \<and> magic ! x + magic ! y + magic ! c = 15)"
  (is "?L \<longleftrightarrow> ?R")
proof
  assume ?L
  then obtain u v w where l: "(u, v, w) \<in> set win_lines"
    and d: "(board ! u = Some player \<and> board ! v = Some player \<and> board ! w = None)
          \<or> (board ! u = Some player \<and> board ! w = Some player \<and> board ! v = None)
          \<or> (board ! v = Some player \<and> board ! w = Some player \<and> board ! u = None)"
    unfolding two_in_line_def by blast
  from win_lines_facts[OF l] have f: "magic ! u + magic ! v + magic ! w = 15" "u < v" "v < w" "w < 9"
    by simp_all
  from d show ?R
  proof (elim disjE)
    assume "board ! u = Some player \<and> board ! v = Some player \<and> board ! w = None"
    with f show ?R by (intro exI[of _ u] exI[of _ v] exI[of _ w]) simp
  next
    assume "board ! u = Some player \<and> board ! w = Some player \<and> board ! v = None"
    with f show ?R by (intro exI[of _ u] exI[of _ w] exI[of _ v]) simp
  next
    assume "board ! v = Some player \<and> board ! w = Some player \<and> board ! u = None"
    with f show ?R by (intro exI[of _ v] exI[of _ w] exI[of _ u]) simp
  qed
next
  assume ?R
  then obtain x y c where xy: "x < y" "y < 9" and px: "board ! x = Some player"
    and py: "board ! y = Some player" and c: "c < 9" "board ! c = None"
    and sum: "magic ! x + magic ! y + magic ! c = 15"
    by blast
  from px py c have ne: "c \<noteq> x" "c \<noteq> y" by auto
  then consider "c < x" | "x < c" "c < y" | "y < c" by linarith
  then show ?L
  proof cases
    case 1
    with xy c sum magic_sum_line_all have "(c, x, y) \<in> set win_lines" by simp
    with px py c show ?thesis unfolding two_in_line_def by blast
  next
    case 2
    with xy c sum magic_sum_line_all have "(x, c, y) \<in> set win_lines" by simp
    with px py c show ?thesis unfolding two_in_line_def by blast
  next
    case 3
    with xy c sum magic_sum_line_all have "(x, y, c) \<in> set win_lines" by simp
    with px py c show ?thesis unfolding two_in_line_def by blast
  qed
qed

text \<open>
  Claim C3. On a board of nine cells, \<^verbatim>\<open>check_player_win\<close> returns a result exactly when
  the player has two marks on a common winning line whose third cell is empty, and
  \<^verbatim>\<open>None\<close> exactly when not; in particular it returns \<^verbatim>\<open>None\<close> when the player has fewer
  than two marks on the board. It never raises.
\<close>

theorem check_player_win_iff_two_in_line:
  assumes "length board = 9"
  shows "((\<exists>r. check_player_win board player = Inr (Some r)) \<longleftrightarrow> two_in_line board player)
       \<and> (check_player_win board player = Inr None \<longleftrightarrow> \<not> two_in_line board player)
       \<and> (length [i \<leftarrow> [0..<9]. board ! i = Some player] < 2
            \<longrightarrow> check_player_win board player = Inr None)"
proof -
  from assms have len: "9 \<le> length board" by simp
  have none: "check_player_win board player = Inr None \<longleftrightarrow> \<not> two_in_line board player"
    unfolding two_in_line_iff by (rule check_player_win_None[OF len])
  have "\<exists>r. check_player_win board player = Inr r"
    using check_player_win_no_error[OF len, of player] by (cases "check_player_win board player") auto
  with none have some: "(\<exists>r. check_player_win board player = Inr (Some r)) \<longleftrightarrow> two_in_line board player"
    by (metis option.exhaust option.distinct(1) sum.inject(2))
  have "check_player_win board player = Inr None"
    if "length [i \<leftarrow> [0..<9]. board ! i = Some player] < 2"
    using combinations2_short[OF that] by (simp add: check_player_win_unfold[OF len])
  with none some show ?thesis by blast
qed

theorem check_player_win_iff_two_in_line_witness:
  "length [Some MarkX, Some MarkX, None, Some MarkO, None, None, None, None, None] = 9
   \<and> two_in_line [Some MarkX, Some MarkX, None, Some MarkO, None, None, None, None, None] MarkX
   \<and> check_player_win [Some MarkX, Some MarkX, None, Some MarkO, None, None, None, None, None] MarkX
       = Inr (Some (2, 1))
   \<and> length [i \<leftarrow> [0..<9].
        [Some MarkX, Some MarkX, None, Some MarkO, None, None, None, None, None] ! i = Some MarkO] < 2
   \<and> check_player_win [Some MarkX, Some MarkX, None, Some MarkO, None, None, None, None, None] MarkO
       = Inr None"
proof -
  let ?b = "[Some MarkX, Some MarkX, None, Some MarkO, None, None, None, None, None]"
  have l: "length ?b = 9" by simp
  have c: "length [i \<leftarrow> [0..<9]. ?b ! i = Some MarkO] < 2" by code_simp
  have x: "check_player_win ?b MarkX = Inr (Some (2, 1))" by code_simp
  from check_player_win_iff_two_in_line[OF l, of MarkX] x have "two_in_line ?b MarkX" by blast
  moreover from check_player_win_iff_two_in_line[OF l, of MarkO] c
  have "check_player_win ?b MarkO = Inr None" by blast
  ultimately show ?thesis using l c x by blast
qed

text \<open>
  Claim C10. When \<^verbatim>\<open>check_player_win\<close> returns \<open>(index, score)\<close>, the cell \<open>index\<close> is an
  empty cell of the board, one of \<^verbatim>\<open>avail_moves(board)\<close>, and the score is
  \<^verbatim>\<open>score_dict[player]\<close>: 1 for \<^verbatim>\<open>"X"\<close> and -1 for \<^verbatim>\<open>"O"\<close>.
\<close>

theorem check_player_win_move_legal:
  assumes "length board = 9"
    and "check_player_win board player = Inr (Some (index, score))"
  shows "index < 9 \<and> board ! index = None
       \<and> (\<exists>am. avail_moves board = Inr am \<and> index \<in> set am)
       \<and> score = score_dict player
       \<and> (player = MarkX \<longrightarrow> score = 1) \<and> (player = MarkO \<longrightarrow> score = - 1)"
proof -
  from assms(1) have len: "9 \<le> length board" by simp
  from check_player_win_Some[OF len assms(2)]
  have i: "index < 9" "board ! index = None" and s: "score = score_dict player" by auto
  from i len have "avail_moves board = Inr [i \<leftarrow> [0..<9]. board ! i = None]
      \<and> index \<in> set [i \<leftarrow> [0..<9]. board ! i = None]"
    by (simp add: avail_moves_def)
  with i s show ?thesis by auto
qed

theorem check_player_win_move_legal_witness:
  "length [Some MarkX, Some MarkX, None, Some MarkO, Some MarkO, None, None, None, None] = 9
   \<and> check_player_win [Some MarkX, Some MarkX, None, Some MarkO, Some MarkO, None, None, None, None] MarkO
       = Inr (Some (5, - 1))
   \<and> [Some MarkX, Some MarkX, None, Some MarkO, Some MarkO, None, None, None, None] ! 5 = None
   \<and> score_dict MarkO = - 1"
proof -
  let ?b = "[Some MarkX, Some MarkX, None, Some MarkO, Some MarkO, None, None, None, None]"
  have l: "length ?b = 9" by simp
  have o: "check_player_win ?b MarkO = Inr (Some (5, - 1))" by code_simp
  from check_player_win_move_legal[OF l o] l o show ?thesis by simp
qed

section \<open>The search\<close>

text \<open>
  The equation of \<open>minimax\<close> is used one step at a time.
\<close>

declare minimax.simps [simp del]

lemma collect_Inr: "collect (map (\<lambda>i. Inr (f i)) xs) = Inr (map f xs)"
  by (induction xs) simp_all

lemma avail_moves_Inr:
  "9 \<le> length board \<Longrightarrow> avail_moves board = Inr [i \<leftarrow> [0..<9]. board ! i = None]"
  by (simp add: avail_moves_def)

lemma avail_moves_sorted:
  "avail_moves board = Inr am \<Longrightarrow> sorted_wrt (<) am \<and> 9 \<le> length board"
  by (auto simp: avail_moves_def split: if_splits intro: sorted_wrt_filter)

lemma minimax_win:
  "check_player_win board player = Inr (Some res) \<Longrightarrow>
   minimax board player opp = Inr (Some (fst res), snd res)"
  by (subst minimax.simps) simp

lemma minimax_draw:
  "check_player_win board player = Inr None \<Longrightarrow> avail_moves board = Inr [] \<Longrightarrow>
   minimax board player opp = Inr (None, 0)"
  by (subst minimax.simps) simp

text \<open>
  Claim C5. On a board of nine cells none of which is empty, \<^verbatim>\<open>minimax\<close> returns
  \<^verbatim>\<open>(None, 0)\<close>, the drawn result, for either player, and \<^verbatim>\<open>check_player_win\<close> returns
  \<^verbatim>\<open>None\<close>.
\<close>

theorem minimax_full_board:
  assumes "length board = 9" and "None \<notin> set board"
  shows "minimax board toMove other = Inr (None, 0)
       \<and> check_player_win board toMove = Inr None
       \<and> avail_moves board = Inr []"
proof -
  from assms have "\<forall>i<9. board ! i \<noteq> None"
    by (metis nth_mem)
  then have e: "[i \<leftarrow> [0..<9]. board ! i = None] = []"
    by (simp add: filter_empty_conv)
  with assms(1) have am: "avail_moves board = Inr []"
    by (simp add: avail_moves_def)
  from assms(1) e have cw: "check_player_win board toMove = Inr None"
    by (simp add: check_player_win_unfold check_pairs_None)
  from am cw show ?thesis by (simp add: minimax_draw)
qed

theorem minimax_full_board_witness:
  "length [Some MarkX, Some MarkO, Some MarkX, Some MarkX, Some MarkO, Some MarkO,
           Some MarkO, Some MarkX, Some MarkX] = 9
   \<and> None \<notin> set [Some MarkX, Some MarkO, Some MarkX, Some MarkX, Some MarkO, Some MarkO,
           Some MarkO, Some MarkX, Some MarkX]
   \<and> minimax [Some MarkX, Some MarkO, Some MarkX, Some MarkX, Some MarkO, Some MarkO,
           Some MarkO, Some MarkX, Some MarkX] MarkX MarkO = Inr (None, 0)
   \<and> check_player_win [Some MarkX, Some MarkO, Some MarkX, Some MarkX, Some MarkO, Some MarkO,
           Some MarkO, Some MarkX, Some MarkX] MarkX = Inr None"
  using minimax_full_board [of "[Some MarkX, Some MarkO, Some MarkX, Some MarkX, Some MarkO,
           Some MarkO, Some MarkO, Some MarkX, Some MarkX]" MarkX MarkO]
  by simp

subsection \<open>Which move is returned\<close>

text \<open>
  \<^verbatim>\<open>scores.sort(key=lambda x: x[1])\<close> is a stable sort by score, and \<^verbatim>\<open>scores\<close> is
  built in ascending order of the cells. So the first pair of the sorted list is the
  lowest cell among those of minimal score, and the last pair is the highest cell
  among those of maximal score.
\<close>

lemma hd_sort_key_min:
  assumes "y \<in> set xs"
  shows "f (hd (sort_key f xs)) \<le> f y"
proof -
  from assms have "y \<in> set (sort_key f xs)" by simp
  moreover have "sorted (map f (sort_key f xs))" by simp
  ultimately show ?thesis
    by (cases "sort_key f xs") auto
qed

lemma last_sort_key_max:
  assumes "y \<in> set xs"
  shows "f y \<le> f (last (sort_key f xs))"
proof -
  from assms have "y \<in> set (sort_key f xs)" by simp
  moreover have "sorted (map f (sort_key f xs))" by simp
  ultimately show ?thesis
    by (cases "sort_key f xs" rule: rev_cases) (auto simp: sorted_append)
qed

lemma hd_sort_key_stable:
  assumes "xs \<noteq> []"
  shows "hd (sort_key f xs) = hd (filter (\<lambda>y. f y = f (hd (sort_key f xs))) xs)"
proof -
  let ?ys = "sort_key f xs"
  from assms have "?ys \<noteq> []" by (metis length_0_conv length_sort)
  then have "hd (filter (\<lambda>y. f y = f (hd ?ys)) ?ys) = hd ?ys"
    by (cases ?ys) simp_all
  then show ?thesis by (simp only: sort_key_stable)
qed

lemma last_sort_key_stable:
  assumes "xs \<noteq> []"
  shows "last (sort_key f xs) = last (filter (\<lambda>y. f y = f (last (sort_key f xs))) xs)"
proof -
  let ?ys = "sort_key f xs"
  from assms have "?ys \<noteq> []" by (metis length_0_conv length_sort)
  then have "last (filter (\<lambda>y. f y = f (last ?ys)) ?ys) = last ?ys"
    by (cases ?ys rule: rev_cases) simp_all
  then show ?thesis by (simp only: sort_key_stable)
qed

lemma hd_sorted_wrt_least:
  fixes zs :: "nat list"
  shows "sorted_wrt (<) zs \<Longrightarrow> j \<in> set zs \<Longrightarrow> hd zs \<le> j"
  by (cases zs) auto

lemma last_sorted_wrt_greatest:
  fixes zs :: "nat list"
  shows "sorted_wrt (<) zs \<Longrightarrow> j \<in> set zs \<Longrightarrow> j \<le> last zs"
  by (cases zs rule: rev_cases) (auto simp: sorted_wrt_append)

lemma first_of_sorted_scores:
  fixes am :: "nat list" and g :: "nat \<Rightarrow> int"
  assumes sa: "sorted_wrt (<) am" and ne: "am \<noteq> []"
  defines "best \<equiv> hd (sort_key snd (map (\<lambda>i. (i, g i)) am))"
  shows "fst best \<in> set am \<and> snd best = g (fst best)
       \<and> (\<forall>j \<in> set am. snd best \<le> g j \<and> (g j = snd best \<longrightarrow> fst best \<le> j))"
proof -
  let ?xs = "map (\<lambda>i. (i, g i)) am"
  let ?zs = "filter (\<lambda>i. g i = snd best) am"
  from ne have xne: "?xs \<noteq> []" by simp
  then have "sort_key snd ?xs \<noteq> []" by (metis length_0_conv length_sort)
  then have "best \<in> set (sort_key snd ?xs)" unfolding best_def by (rule hd_in_set)
  then have bin: "best \<in> set ?xs" by simp
  then have b1: "fst best \<in> set am" and b2: "snd best = g (fst best)" by auto
  from b1 b2 have zne: "?zs \<noteq> []" by (auto simp: filter_empty_conv)
  have "best = hd (filter (\<lambda>y. snd y = snd best) ?xs)"
    unfolding best_def by (rule hd_sort_key_stable[OF xne])
  also have "\<dots> = hd (map (\<lambda>i. (i, g i)) ?zs)"
    by (simp add: filter_map comp_def)
  also have "\<dots> = (hd ?zs, g (hd ?zs))"
    using zne by (simp add: hd_map)
  finally have fb: "fst best = hd ?zs" by (metis fst_conv)
  have sz: "sorted_wrt (<) ?zs" using sa by (rule sorted_wrt_filter)
  have "snd best \<le> g j \<and> (g j = snd best \<longrightarrow> fst best \<le> j)" if "j \<in> set am" for j
  proof
    from that have "(j, g j) \<in> set ?xs" by auto
    from hd_sort_key_min[OF this, of snd] show "snd best \<le> g j" by (simp add: best_def)
    show "g j = snd best \<longrightarrow> fst best \<le> j"
      using that hd_sorted_wrt_least[OF sz, of j] fb by simp
  qed
  with b1 b2 show ?thesis by blast
qed

lemma last_of_sorted_scores:
  fixes am :: "nat list" and g :: "nat \<Rightarrow> int"
  assumes sa: "sorted_wrt (<) am" and ne: "am \<noteq> []"
  defines "best \<equiv> last (sort_key snd (map (\<lambda>i. (i, g i)) am))"
  shows "fst best \<in> set am \<and> snd best = g (fst best)
       \<and> (\<forall>j \<in> set am. g j \<le> snd best \<and> (g j = snd best \<longrightarrow> j \<le> fst best))"
proof -
  let ?xs = "map (\<lambda>i. (i, g i)) am"
  let ?zs = "filter (\<lambda>i. g i = snd best) am"
  from ne have xne: "?xs \<noteq> []" by simp
  then have "sort_key snd ?xs \<noteq> []" by (metis length_0_conv length_sort)
  then have "best \<in> set (sort_key snd ?xs)" unfolding best_def by (rule last_in_set)
  then have bin: "best \<in> set ?xs" by simp
  then have b1: "fst best \<in> set am" and b2: "snd best = g (fst best)" by auto
  from b1 b2 have zne: "?zs \<noteq> []" by (auto simp: filter_empty_conv)
  have "best = last (filter (\<lambda>y. snd y = snd best) ?xs)"
    unfolding best_def by (rule last_sort_key_stable[OF xne])
  also have "\<dots> = last (map (\<lambda>i. (i, g i)) ?zs)"
    by (simp add: filter_map comp_def)
  also have "\<dots> = (last ?zs, g (last ?zs))"
    using zne by (simp add: last_map)
  finally have fb: "fst best = last ?zs" by (metis fst_conv)
  have sz: "sorted_wrt (<) ?zs" using sa by (rule sorted_wrt_filter)
  have "g j \<le> snd best \<and> (g j = snd best \<longrightarrow> j \<le> fst best)" if "j \<in> set am" for j
  proof
    from that have "(j, g j) \<in> set ?xs" by auto
    from last_sort_key_max[OF this, of snd] show "g j \<le> snd best" by (simp add: best_def)
    show "g j = snd best \<longrightarrow> j \<le> fst best"
      using that last_sorted_wrt_greatest[OF sz, of j] fb by simp
  qed
  with b1 b2 show ?thesis by blast
qed

lemma minimax_step:
  assumes cw: "check_player_win board player = Inr None"
    and am: "avail_moves board = Inr am" and ne: "am \<noteq> []"
    and ch: "\<forall>i \<in> set am. \<exists>r. minimax (board[i := Some player]) opp player = Inr r"
  shows "minimax board player opp =
     (let sorted_scores =
            sort_key snd (map (\<lambda>i. (i, snd (projr (minimax (board[i := Some player]) opp player)))) am);
          best = (if player = MarkX then last sorted_scores else hd sorted_scores)
      in Inr (Some (fst best), snd best))"
proof -
  have "map (\<lambda>i. case minimax (board[i := Some player]) opp player of
                    Inl e \<Rightarrow> Inl e | Inr r \<Rightarrow> Inr (i, snd r)) am
      = map (\<lambda>i. Inr (i, snd (projr (minimax (board[i := Some player]) opp player)))) am"
    using ch by (intro map_cong refl) (auto split: sum.splits)
  then have "collect (map (\<lambda>i. case minimax (board[i := Some player]) opp player of
                    Inl e \<Rightarrow> Inl e | Inr r \<Rightarrow> Inr (i, snd r)) am)
      = Inr (map (\<lambda>i. (i, snd (projr (minimax (board[i := Some player]) opp player)))) am)"
    by (simp only: collect_Inr)
  then show ?thesis
    by (subst minimax.simps) (simp add: cw am ne)
qed

lemma minimax_no_error:
  "9 \<le> length board \<Longrightarrow> \<exists>r. minimax board player opp = Inr r"
proof (induction board player opp rule: minimax.induct)
  case (1 board player opp)
  note len = \<open>9 \<le> length board\<close>
  obtain w where w: "check_player_win board player = Inr w"
    using check_player_win_no_error[OF len, of player]
    by (cases "check_player_win board player") auto
  show ?case
  proof (cases w)
    case (Some res)
    with w show ?thesis by (simp add: minimax_win)
  next
    case None
    let ?am = "[i \<leftarrow> [0..<9]. board ! i = None]"
    have am: "avail_moves board = Inr ?am" by (rule avail_moves_Inr[OF len])
    show ?thesis
    proof (cases "?am = []")
      case True
      with w None am show ?thesis by (simp add: minimax_draw)
    next
      case False
      have "\<forall>i \<in> set ?am. \<exists>r. minimax (board[i := Some player]) opp player = Inr r"
        using "1.IH"[OF w None am False] len by simp
      from minimax_step[OF w[unfolded None] am False this] show ?thesis
        by (simp add: Let_def)
    qed
  qed
qed

lemma minimax_choice:
  assumes cw: "check_player_win board player = Inr None"
    and am: "avail_moves board = Inr avail" and ne: "avail \<noteq> []"
  shows "\<exists>i s. minimax board player opp = Inr (Some i, s) \<and> i \<in> set avail
           \<and> (\<exists>m. minimax (board[i := Some player]) opp player = Inr (m, s))
           \<and> (\<forall>j \<in> set avail. \<exists>m sj.
                 minimax (board[j := Some player]) opp player = Inr (m, sj)
                 \<and> (if player = MarkX then sj \<le> s \<and> (sj = s \<longrightarrow> j \<le> i)
                     else s \<le> sj \<and> (sj = s \<longrightarrow> i \<le> j)))"
proof -
  let ?g = "\<lambda>i. snd (projr (minimax (board[i := Some player]) opp player))"
  let ?sorted = "sort_key snd (map (\<lambda>i. (i, ?g i)) avail)"
  let ?best = "if player = MarkX then last ?sorted else hd ?sorted"
  from avail_moves_sorted[OF am] have len: "9 \<le> length board" by simp
  have ch: "\<exists>r. minimax (board[i := Some player]) opp player = Inr r" for i
    using minimax_no_error[of "board[i := Some player]" opp player] len by simp
  then have chg: "\<exists>m. minimax (board[i := Some player]) opp player = Inr (m, ?g i)" for i
    by (metis prod.collapse sum.sel(2))
  have mm: "minimax board player opp = Inr (Some (fst ?best), snd ?best)"
    using minimax_step[OF cw am ne] ch by (simp add: Let_def)
  from avail_moves_sorted[OF am] have sa: "sorted_wrt (<) avail" by simp
  define bi where "bi = fst ?best"
  define bs where "bs = snd ?best"
  have facts: "bi \<in> set avail \<and> bs = ?g bi
       \<and> (\<forall>j \<in> set avail. if player = MarkX then ?g j \<le> bs \<and> (?g j = bs \<longrightarrow> j \<le> bi)
                              else bs \<le> ?g j \<and> (?g j = bs \<longrightarrow> bi \<le> j))"
  proof (cases "player = MarkX")
    case True
    show ?thesis
      unfolding bi_def bs_def if_P[OF True]
      by (rule last_of_sorted_scores[OF sa ne])
  next
    case False
    show ?thesis
      unfolding bi_def bs_def if_not_P[OF False]
      by (rule first_of_sorted_scores[OF sa ne])
  qed
  have 1: "minimax board player opp = Inr (Some bi, bs)"
    using mm unfolding bi_def bs_def .
  have 2: "\<exists>m. minimax (board[bi := Some player]) opp player = Inr (m, bs)"
    using chg[of bi] facts by simp
  have 3: "\<exists>m sj. minimax (board[j := Some player]) opp player = Inr (m, sj)
             \<and> (if player = MarkX then sj \<le> bs \<and> (sj = bs \<longrightarrow> j \<le> bi)
                 else bs \<le> sj \<and> (sj = bs \<longrightarrow> bi \<le> j))"
    if "j \<in> set avail" for j
  proof -
    from chg[of j] obtain m where "minimax (board[j := Some player]) opp player = Inr (m, ?g j)" ..
    moreover from facts that
    have "if player = MarkX then ?g j \<le> bs \<and> (?g j = bs \<longrightarrow> j \<le> bi)
          else bs \<le> ?g j \<and> (?g j = bs \<longrightarrow> bi \<le> j)" by blast
    ultimately show ?thesis by blast
  qed
  from 1 2 3 facts show ?thesis by blast
qed

text \<open>
  Claim C1, as the code has it. On a board of nine cells where the mover has no immediate
  win and some cell is empty, \<^verbatim>\<open>minimax\<close> returns an empty cell \<open>i\<close> with the score \<open>s\<close>
  of the position after the mover plays \<open>i\<close>, and \<open>s\<close> is extremal over the empty cells:
  maximal for \<^verbatim>\<open>"X"\<close>, minimal for \<^verbatim>\<open>"O"\<close>. Among the cells of that score, \<^verbatim>\<open>"X"\<close> gets the
  highest cell (\<^verbatim>\<open>scores[-1]\<close> of the stably sorted list) and \<^verbatim>\<open>"O"\<close> the lowest
  (\<^verbatim>\<open>scores[0]\<close>).
\<close>

theorem minimax_tie_break:
  assumes "length board = 9"
    and "check_player_win board player = Inr None"
    and "avail_moves board = Inr avail" and "avail \<noteq> []"
  shows "\<exists>i s. minimax board player opp = Inr (Some i, s) \<and> i \<in> set avail
           \<and> (\<exists>m. minimax (board[i := Some player]) opp player = Inr (m, s))
           \<and> (\<forall>j \<in> set avail. \<exists>m sj.
                 minimax (board[j := Some player]) opp player = Inr (m, sj)
                 \<and> (if player = MarkX then sj \<le> s \<and> (sj = s \<longrightarrow> j \<le> i)
                     else s \<le> sj \<and> (sj = s \<longrightarrow> i \<le> j)))"
  using assms(2-4) by (rule minimax_choice)

text \<open>
  The board
  \<^verbatim>\<open>X _ O / O O X / X _ _\<close> with \<^verbatim>\<open>"X"\<close> to move: no immediate win, empty cells 1, 7, 8.
\<close>

theorem minimax_tie_break_witness:
  "length [Some MarkX, None, Some MarkO, Some MarkO, Some MarkO, Some MarkX, Some MarkX, None, None] = 9
   \<and> check_player_win
        [Some MarkX, None, Some MarkO, Some MarkO, Some MarkO, Some MarkX, Some MarkX, None, None] MarkX
       = Inr None
   \<and> avail_moves
        [Some MarkX, None, Some MarkO, Some MarkO, Some MarkO, Some MarkX, Some MarkX, None, None]
       = Inr [1, 7, 8]
   \<and> [1, 7, 8] \<noteq> ([] :: nat list)
   \<and> (\<exists>i s. minimax
        [Some MarkX, None, Some MarkO, Some MarkO, Some MarkO, Some MarkX, Some MarkX, None, None]
        MarkX MarkO = Inr (Some i, s) \<and> i \<in> set [1, 7, 8])"
proof -
  let ?b = "[Some MarkX, None, Some MarkO, Some MarkO, Some MarkO, Some MarkX, Some MarkX, None, None]"
  have l: "length ?b = 9" by simp
  have c: "check_player_win ?b MarkX = Inr None" by code_simp
  have a: "avail_moves ?b = Inr [1, 7, 8]" by code_simp
  have n: "[1, 7, 8] \<noteq> ([] :: nat list)" by simp
  from minimax_tie_break[OF l c a n, of MarkO]
  have "\<exists>i s. minimax ?b MarkX MarkO = Inr (Some i, s) \<and> i \<in> set [1, 7, 8]" by blast
  with l c a n show ?thesis by blast
qed

text \<open>
  Claim C1 as stated fails for \<^verbatim>\<open>"X"\<close>. On the board \<^verbatim>\<open>X _ O / O O X / X _ _\<close> the
  three empty cells 1, 7 and 8 all lead to score 0, the maximum, and \<^verbatim>\<open>minimax\<close> returns
  cell 8, not cell 1.
\<close>

theorem minimax_lowest_index_counterexample:
  "avail_moves
     [Some MarkX, None, Some MarkO, Some MarkO, Some MarkO, Some MarkX, Some MarkX, None, None]
     = Inr [1, 7, 8]
   \<and> check_player_win
     [Some MarkX, None, Some MarkO, Some MarkO, Some MarkO, Some MarkX, Some MarkX, None, None] MarkX
     = Inr None
   \<and> minimax
     [Some MarkX, Some MarkX, Some MarkO, Some MarkO, Some MarkO, Some MarkX, Some MarkX, None, None]
     MarkO MarkX = Inr (Some 7, 0)
   \<and> minimax
     [Some MarkX, None, Some MarkO, Some MarkO, Some MarkO, Some MarkX, Some MarkX, Some MarkX, None]
     MarkO MarkX = Inr (Some 8, 0)
   \<and> minimax
     [Some MarkX, None, Some MarkO, Some MarkO, Some MarkO, Some MarkX, Some MarkX, None, Some MarkX]
     MarkO MarkX = Inr (Some 7, 0)
   \<and> minimax
     [Some MarkX, None, Some MarkO, Some MarkO, Some MarkO, Some MarkX, Some MarkX, None, None]
     MarkX MarkO = Inr (Some 8, 0)
   \<and> minimax
     [Some MarkX, None, Some MarkO, Some MarkO, Some MarkO, Some MarkX, Some MarkX, None, None]
     MarkX MarkO \<noteq> Inr (Some 1, 0)"
  by code_simp

subsection \<open>The value of the empty board\<close>

text \<open>
  The list quantifiers of \<open>certify\<close> are evaluated from left to right and stop at the
  first decisive cell.
\<close>

lemma list_ex_lazy [code]:
  "list_ex P [] = False"
  "list_ex P (x # xs) = (if P x then True else list_ex P xs)"
  by simp_all

lemma list_all_lazy [code]:
  "list_all P [] = True"
  "list_all P (x # xs) = (if P x then list_all P xs else False)"
  by simp_all

lemma certify_sound:
  "certify lower board player opp \<Longrightarrow>
   \<exists>m s. minimax board player opp = Inr (m, s) \<and> (if lower then 0 \<le> s else s \<le> 0)"
proof (induction board player opp rule: minimax.induct)
  case (1 board player opp)
  note cert = \<open>certify lower board player opp\<close>
  from cert obtain w where w: "check_player_win board player = Inr w"
    by (subst (asm) certify.simps) (auto split: sum.splits)
  show ?case
  proof (cases w)
    case (Some res)
    from cert w Some have "if lower then 0 \<le> snd res else snd res \<le> 0"
      by (subst (asm) certify.simps) simp
    with w Some show ?thesis by (simp add: minimax_win)
  next
    case None
    from cert w None obtain avail where am: "avail_moves board = Inr avail"
      by (subst (asm) certify.simps) (auto split: sum.splits)
    show ?thesis
    proof (cases "avail = []")
      case True
      with w None am show ?thesis by (simp add: minimax_draw)
    next
      case False
      note IH = "1.IH"[OF w None am False]
      from minimax_choice[OF w[unfolded None] am False, of opp]
      obtain i s where mm: "minimax board player opp = Inr (Some i, s)" and i: "i \<in> set avail"
        and ci: "\<exists>m. minimax (board[i := Some player]) opp player = Inr (m, s)"
        and all: "\<forall>j \<in> set avail. \<exists>m sj.
                 minimax (board[j := Some player]) opp player = Inr (m, sj)
                 \<and> (if player = MarkX then sj \<le> s \<and> (sj = s \<longrightarrow> j \<le> i)
                     else s \<le> sj \<and> (sj = s \<longrightarrow> i \<le> j))"
        by blast
      have bound: "if lower then 0 \<le> s else s \<le> 0"
      proof (cases "(player = MarkX) = lower")
        case True
        with cert w None am False
        obtain j where j: "j \<in> set avail" and cj: "certify lower (board[j := Some player]) opp player"
          by (subst (asm) certify.simps) (auto simp: list_ex_iff)
        from IH[OF j cj] obtain m sj where
          "minimax (board[j := Some player]) opp player = Inr (m, sj)"
          "if lower then 0 \<le> sj else sj \<le> 0" by blast
        moreover from all j obtain m' sj' where
          "minimax (board[j := Some player]) opp player = Inr (m', sj')"
          "if player = MarkX then sj' \<le> s else s \<le> sj'" by (metis (full_types))
        ultimately show ?thesis using True by (auto split: if_splits)
      next
        case neq: False
        with cert w None am False
        have "certify lower (board[i := Some player]) opp player"
          using i by (subst (asm) certify.simps) (auto simp: list_all_iff)
        from IH[OF i this] ci show ?thesis by auto
      qed
      with mm show ?thesis by simp
    qed
  qed
qed

lemma certify_lower_empty: "certify True (replicate 9 None) MarkX MarkO"
  by code_simp

lemma certify_upper_empty: "certify False (replicate 9 None) MarkX MarkO"
  by code_simp

text \<open>
  Claim C4. On the empty board with \<^verbatim>\<open>"X"\<close> to move, \<^verbatim>\<open>minimax(board, "X", "O")\<close>
  returns score 0.
\<close>

theorem minimax_empty_board_draw:
  "\<exists>m. minimax (replicate 9 None) MarkX MarkO = Inr (m, 0)"
proof -
  from certify_sound[OF certify_lower_empty]
  obtain m s where 1: "minimax (replicate 9 None) MarkX MarkO = Inr (m, s)" "0 \<le> s" by auto
  from certify_sound[OF certify_upper_empty]
  obtain m' s' where 2: "minimax (replicate 9 None) MarkX MarkO = Inr (m', s')" "s' \<le> 0" by auto
  from 1 2 have "s = 0" by simp
  with 1 show ?thesis by blast
qed

section \<open>Termination and recursion depth\<close>

lemma empty_count_le: "empty_count board \<le> 9"
proof -
  have "length [i \<leftarrow> [0..<9]. board ! i = None] \<le> length [0..<9]" by (rule length_filter_le)
  then show ?thesis by (simp add: empty_count_def avail_moves_def)
qed

lemma empty_count_update:
  assumes "avail_moves board = Inr avail" and "i \<in> set avail"
  shows "empty_count (board[i := Some player]) < empty_count board"
proof -
  from assms have "9 \<le> length board" by (auto simp: avail_moves_def split: if_splits)
  then show ?thesis
    using avail_moves_update_less[OF assms, of player]
    by (simp add: empty_count_def avail_moves_def)
qed

lemma collect_fuel_Some:
  "collect_fuel (map (\<lambda>i. case Some (f i) of None \<Rightarrow> None | Some (Inl e) \<Rightarrow> Some (Inl e)
                           | Some (Inr r) \<Rightarrow> Some (Inr (g i r))) xs)
   = Some (collect (map (\<lambda>i. case f i of Inl e \<Rightarrow> Inl e | Inr r \<Rightarrow> Inr (g i r)) xs))"
  by (induction xs) (auto split: sum.splits)

lemma minimax_fuel_enough:
  "empty_count board < fuel \<Longrightarrow> minimax_fuel fuel board player opp = Some (minimax board player opp)"
proof (induction board player opp arbitrary: fuel rule: minimax.induct)
  case (1 board player opp)
  from \<open>empty_count board < fuel\<close> obtain depth where fuel: "fuel = Suc depth"
    by (cases fuel) auto
  show ?case
  proof (cases "check_player_win board player")
    case (Inl e)
    then show ?thesis by (simp add: fuel minimax.simps)
  next
    case (Inr w)
    show ?thesis
    proof (cases w)
      case (Some res)
      with Inr show ?thesis by (simp add: fuel minimax.simps)
    next
      case None
      show ?thesis
      proof (cases "avail_moves board")
        case (Inl e)
        with Inr None show ?thesis by (simp add: fuel minimax.simps)
      next
        case am: (Inr avail)
        show ?thesis
        proof (cases "avail = []")
          case True
          with Inr None am show ?thesis by (simp add: fuel minimax.simps)
        next
          case False
          have ch: "minimax_fuel depth (board[i := Some player]) opp player
                  = Some (minimax (board[i := Some player]) opp player)" if "i \<in> set avail" for i
          proof -
            from empty_count_update[OF am that, of player] "1.prems" fuel
            have "empty_count (board[i := Some player]) < depth" by simp
            from "1.IH"[OF Inr None am False that this] show ?thesis .
          qed
          have "map (\<lambda>i. case minimax_fuel depth (board[i := Some player]) opp player of
                            None \<Rightarrow> None
                          | Some (Inl e) \<Rightarrow> Some (Inl e)
                          | Some (Inr r) \<Rightarrow> Some (Inr (i, snd r))) avail
              = map (\<lambda>i. case Some (minimax (board[i := Some player]) opp player) of
                            None \<Rightarrow> None
                          | Some (Inl e) \<Rightarrow> Some (Inl e)
                          | Some (Inr r) \<Rightarrow> Some (Inr (i, snd r))) avail"
            using ch by (intro map_cong refl) simp
          then have "collect_fuel (map (\<lambda>i. case minimax_fuel depth (board[i := Some player]) opp player of
                            None \<Rightarrow> None
                          | Some (Inl e) \<Rightarrow> Some (Inl e)
                          | Some (Inr r) \<Rightarrow> Some (Inr (i, snd r))) avail)
              = Some (collect (map (\<lambda>i. case minimax (board[i := Some player]) opp player of
                            Inl e \<Rightarrow> Inl e | Inr r \<Rightarrow> Inr (i, snd r)) avail))"
            by (simp only: collect_fuel_Some)
          with Inr None am False show ?thesis
            by (simp add: fuel minimax.simps[of board] Let_def split: sum.splits)
        qed
      qed
    qed
  qed
qed

text \<open>
  Claim C8. \<^verbatim>\<open>minimax\<close> terminates on every board: a budget of one call more than the
  number of empty cells is enough for the whole recursion and gives the result of
  \<open>minimax\<close>; the number of empty cells is at most 9; and each recursive call, on the
  board with one more empty cell \<open>i\<close> of \<^verbatim>\<open>avail_moves(board)\<close> filled, has strictly fewer
  empty cells.
\<close>

theorem minimax_terminates:
  "minimax_fuel (Suc (empty_count board)) board player opp = Some (minimax board player opp)
   \<and> empty_count board \<le> 9
   \<and> (\<forall>avail i. avail_moves board = Inr avail \<and> i \<in> set avail
         \<longrightarrow> empty_count (board[i := Some player]) < empty_count board)"
  using minimax_fuel_enough[of board "Suc (empty_count board)" player opp]
    empty_count_le[of board] empty_count_update[of board _ _ player]
  by blast

theorem minimax_terminates_witness:
  "avail_moves [Some MarkX, None, Some MarkO, Some MarkO, Some MarkO, Some MarkX, Some MarkX, None, None]
     = Inr [1, 7, 8]
   \<and> (7::nat) \<in> set [1, 7, 8]
   \<and> empty_count [Some MarkX, None, Some MarkO, Some MarkO, Some MarkO, Some MarkX, Some MarkX, None, None] = 3
   \<and> empty_count ([Some MarkX, None, Some MarkO, Some MarkO, Some MarkO, Some MarkX, Some MarkX, None, None]
        [7 := Some MarkX]) < 3
   \<and> minimax_fuel 4
        [Some MarkX, None, Some MarkO, Some MarkO, Some MarkO, Some MarkX, Some MarkX, None, None]
        MarkX MarkO = Some (Inr (Some 8, 0))"
proof -
  let ?b = "[Some MarkX, None, Some MarkO, Some MarkO, Some MarkO, Some MarkX, Some MarkX, None, None]"
  have a: "avail_moves ?b = Inr [1, 7, 8]" by code_simp
  have e: "empty_count ?b = 3" by code_simp
  have m: "minimax ?b MarkX MarkO = Inr (Some 8, 0)" by code_simp
  from minimax_terminates[of ?b MarkX MarkO] a e m show ?thesis by simp
qed

section \<open>The caller's board is not mutated\<close>

lemma scores_heap_frame:
  assumes IH: "\<And>h r p q. r < length h \<Longrightarrow> empty_count (h ! r) < depth \<Longrightarrow>
                 \<exists>new. minimax_heap depth h r p q = Some (minimax (h ! r) p q, h @ new)"
    and am: "avail_moves brd = Inr avail"
    and d: "empty_count brd \<le> depth"
  shows "board < length h \<Longrightarrow> h ! board = brd \<Longrightarrow> set cells \<subseteq> set avail \<Longrightarrow>
     \<exists>new. scores_heap depth h board player opp cells scores
        = Some (Inr (scores @ map (\<lambda>i. (i, snd (projr (minimax (brd[i := Some player]) opp player)))) cells),
                h @ new)"
proof (induction cells arbitrary: h scores)
  case Nil
  then show ?case by simp
next
  case (Cons i rest)
  from am have len: "9 \<le> length brd"
    by (auto simp: avail_moves_def split: if_splits)
  from Cons.prems am have i: "i \<in> set avail" and i9: "i < 9"
    by (auto simp: avail_moves_def split: if_splits)
  let ?child = "brd[i := Some player]"
  let ?h2 = "h @ [?child]"
  have cp: "copy_list h board = (length h, h @ [brd])"
    using Cons.prems by (simp add: copy_list_def)
  have si: "setitem (h @ [brd]) (length h) i (Some player) = Inr ?h2"
    using len i9 by (simp add: setitem_def)
  have "empty_count ?child < depth"
    using empty_count_update[OF am i, of player] d by simp
  with IH[of "length h" ?h2 opp player]
  obtain n1 where m: "minimax_heap depth ?h2 (length h) opp player
                       = Some (minimax ?child opp player, ?h2 @ n1)"
    by auto
  from minimax_no_error[of ?child opp player] len
  obtain r where r: "minimax ?child opp player = Inr r" by auto
  let ?h3 = "?h2 @ n1"
  have b3: "board < length ?h3" "?h3 ! board = brd"
    using Cons.prems by (simp_all add: nth_append)
  from Cons.prems have "set rest \<subseteq> set avail" by simp
  from Cons.IH[OF b3 this, of "scores @ [(i, snd r)]"]
  obtain n2 where "scores_heap depth ?h3 board player opp rest (scores @ [(i, snd r)])
      = Some (Inr ((scores @ [(i, snd r)])
                 @ map (\<lambda>i. (i, snd (projr (minimax (brd[i := Some player]) opp player)))) rest),
              ?h3 @ n2)"
    by blast
  then have "scores_heap depth h board player opp (i # rest) scores
      = Some (Inr (scores @ map (\<lambda>i. (i, snd (projr (minimax (brd[i := Some player]) opp player)))) (i # rest)),
              h @ ([?child] @ n1 @ n2))"
    by (simp add: cp si m r)
  then show ?case by blast
qed

lemma minimax_heap_result:
  "board < length h \<Longrightarrow> empty_count (h ! board) < fuel \<Longrightarrow>
   \<exists>new. minimax_heap fuel h board player opp = Some (minimax (h ! board) player opp, h @ new)"
proof (induction fuel arbitrary: h board player opp)
  case 0
  then show ?case by simp
next
  case (Suc depth)
  let ?brd = "h ! board"
  show ?case
  proof (cases "check_player_win ?brd player")
    case (Inl e)
    then have "minimax_heap (Suc depth) h board player opp = Some (minimax ?brd player opp, h @ [])"
      by (simp add: minimax.simps)
    then show ?thesis by blast
  next
    case (Inr w)
    show ?thesis
    proof (cases w)
      case (Some res)
      with Inr have "minimax_heap (Suc depth) h board player opp = Some (minimax ?brd player opp, h @ [])"
        by (simp add: minimax.simps)
      then show ?thesis by blast
    next
      case None
      show ?thesis
      proof (cases "avail_moves ?brd")
        case (Inl e)
        with Inr None
        have "minimax_heap (Suc depth) h board player opp = Some (minimax ?brd player opp, h @ [])"
          by (simp add: minimax.simps)
        then show ?thesis by blast
      next
        case am: (Inr avail)
        show ?thesis
        proof (cases "avail = []")
          case True
          with Inr None am
          have "minimax_heap (Suc depth) h board player opp = Some (minimax ?brd player opp, h @ [])"
            by (simp add: minimax.simps)
          then show ?thesis by blast
        next
          case False
          from Suc.prems have d: "empty_count ?brd \<le> depth" by simp
          from scores_heap_frame[OF Suc.IH am d Suc.prems(1) refl subset_refl, of player opp "[]"]
          obtain new where sc: "scores_heap depth h board player opp avail []
             = Some (Inr (map (\<lambda>i. (i, snd (projr (minimax (?brd[i := Some player]) opp player)))) avail),
                     h @ new)"
            by auto
          from am have len: "9 \<le> length ?brd"
            by (auto simp: avail_moves_def split: if_splits)
          have ch: "\<forall>i \<in> set avail. \<exists>r. minimax (?brd[i := Some player]) opp player = Inr r"
            using minimax_no_error len by simp
          from Inr None have cw: "check_player_win ?brd player = Inr None" by simp
          have "minimax_heap (Suc depth) h board player opp
                 = Some (minimax ?brd player opp, h @ new)"
            unfolding minimax_step[OF cw am False ch]
            using cw am False sc by (simp add: Let_def)
          then show ?thesis by blast
        qed
      qed
    qed
  qed
qed

text \<open>
  Claim C7. \<^verbatim>\<open>minimax\<close> never mutates the board it receives. Run on a heap \<open>h\<close> with the
  caller's board at the reference \<open>board\<close>, and a budget of nested calls above the
  number of empty cells, \<open>minimax_heap\<close> returns the result of \<open>minimax\<close> on the cells of
  that board and a heap \<open>h'\<close> in which the caller's board, and every other object of
  \<open>h\<close>, has the cells it had: the recursive calls only write to the copies they
  allocate.
\<close>

theorem minimax_never_mutates_board:
  assumes "board < length h" and "empty_count (h ! board) < fuel"
  shows "\<exists>h'. minimax_heap fuel h board player opp = Some (minimax (h ! board) player opp, h')
           \<and> h' ! board = h ! board
           \<and> length h \<le> length h' \<and> (\<forall>r < length h. h' ! r = h ! r)"
proof -
  from minimax_heap_result[OF assms, of player opp]
  obtain new where "minimax_heap fuel h board player opp
      = Some (minimax (h ! board) player opp, h @ new)" ..
  with assms(1) show ?thesis by (auto simp: nth_append)
qed

theorem minimax_never_mutates_board_witness:
  "(0::nat) < length [[Some MarkX, None, Some MarkO, Some MarkO, Some MarkO, Some MarkX, Some MarkX, None, None]]
   \<and> empty_count ([[Some MarkX, None, Some MarkO, Some MarkO, Some MarkO, Some MarkX, Some MarkX, None, None]] ! 0) < 4
   \<and> (\<exists>h'. minimax_heap 4
          [[Some MarkX, None, Some MarkO, Some MarkO, Some MarkO, Some MarkX, Some MarkX, None, None]]
          0 MarkX MarkO = Some (Inr (Some 8, 0), h')
        \<and> h' ! 0 = [Some MarkX, None, Some MarkO, Some MarkO, Some MarkO, Some MarkX, Some MarkX, None, None])"
proof -
  let ?b = "[Some MarkX, None, Some MarkO, Some MarkO, Some MarkO, Some MarkX, Some MarkX, None, None]"
  have l: "(0::nat) < length [?b]" by simp
  have e: "empty_count ([?b] ! 0) < 4" by code_simp
  have m: "minimax ?b MarkX MarkO = Inr (Some 8, 0)" by code_simp
  from minimax_never_mutates_board[OF l e, of MarkX MarkO] m
  have "\<exists>h'. minimax_heap 4 [?b] 0 MarkX MarkO = Some (Inr (Some 8, 0), h') \<and> h' ! 0 = ?b"
    by auto
  with l e show ?thesis by blast
qed

section \<open>Placing a mark\<close>




end
